theory Spec2Isabelle
  imports Main "HOL-Library.Word"
begin

section \<open>The multicast core of rxcpp::subjects (rx-subject.hpp)\<close>

text \<open>
  The development embeds \<^verbatim>\<open>rxcpp::subjects::detail::multicast_observer<T>\<close> of
  \<^verbatim>\<open>Rx/v2/src/rxcpp/subjects/rx-subject.hpp\<close>. Every member function is a HOL function
  from the state before the call to the state after it; a member function runs to
  completion, so the mutex only brackets the assignments and interleavings of threads
  are outside the model.

  \<^item> \<^verbatim>\<open>state_type\<close> and \<^verbatim>\<open>binder_type\<close> are records; the two \<^verbatim>\<open>shared_ptr\<close>s that lead from
    a \<^verbatim>\<open>multicast_observer\<close> to its binder and from the binder to its state always point
    to the one binder and the one state of the subject, so they are nested records.
  \<^item> \<^verbatim>\<open>shared_ptr<completer_type>\<close> is an address into an explicit heap of completers
    (\<open>None\<close> is the null pointer), because the hot-path pointer and the canonical
    pointer alias snapshots and claims depend on that.
  \<^item> \<^verbatim>\<open>std::atomic<int> generation\<close> and \<^verbatim>\<open>int current_generation\<close> are 32-bit words:
    \<^verbatim>\<open>++\<close> on the atomic wraps around in two's complement.
  \<^item> \<^verbatim>\<open>subscriber<T>\<close>, \<^verbatim>\<open>composite_subscription\<close> and the tracing hooks are declared in
    headers that are not part of the sources at hand. A subscriber is a pair of an
    observer identity and a subscription handle; what the dispatcher asks of it
    (\<^verbatim>\<open>is_subscribed\<close>) is read from the world, every call the dispatcher makes on it is
    appended to a trace, and what the callback does is a parameter of the model (the
    handler): how it changes the subscriptions, whether it returns or throws, and what
    it leaves in an argument that was forwarded to it. The dispatcher catches nothing,
    so an exception of a callback ends the member function that made the call, with
    the state as it is at that point. A callback that calls back into the subject it
    is notified by is outside the model.
\<close>

subsection \<open>Subscribers, notifications and the world around the dispatcher\<close>

text \<open>\<^verbatim>\<open>std::exception_ptr\<close>: \<open>None\<close> is the null pointer.\<close>

type_synonym 'e exception_ptr = "'e option"

text \<open>\<^verbatim>\<open>typedef subscriber<T> observer_type\<close>: the observer it forwards to and its subscription.\<close>

record observer_type =
  get_observer :: nat
  get_subscription :: nat

datatype ('v, 'e) notification =
  OnNext 'v
| OnError "'e exception_ptr"
| OnCompleted

text \<open>
  What the dispatcher does to the outside: it calls a method of a subscriber, or it
  calls \<^verbatim>\<open>unsubscribe()\<close> on a subscription.
\<close>

datatype ('v, 'e) event =
  Deliver observer_type "('v, 'e) notification"
| Unsubscribed nat

record ('v, 'e) world =
  subscribed :: "nat \<Rightarrow> bool"
  trace :: "('v, 'e) event list"

text \<open>
  What the callbacks of the subscribers do, as far as the dispatcher can tell:
  \<^item> \<open>effect\<close>: the subscriptions after the callback (a subscriber may unsubscribe itself
    or others while it handles a notification);
  \<^item> \<open>throws\<close>: whether the callback leaves by an exception instead of returning;
  \<^item> \<open>leaves\<close>: what \<^verbatim>\<open>on_next\<close> leaves in its argument. \<^verbatim>\<open>multicast_observer::on_next\<close>
    passes \<^verbatim>\<open>std::forward<V>(v)\<close>, so a callback handed an rvalue may move from it (and one
    handed a non-const lvalue may assign to it); a callback that only reads its argument
    leaves it as it was.
\<close>

record ('v, 'e) handler =
  effect :: "observer_type \<Rightarrow> ('v, 'e) notification \<Rightarrow> (nat \<Rightarrow> bool) \<Rightarrow> (nat \<Rightarrow> bool)"
  throws :: "observer_type \<Rightarrow> ('v, 'e) notification \<Rightarrow> (nat \<Rightarrow> bool) \<Rightarrow> bool"
  leaves :: "observer_type \<Rightarrow> 'v \<Rightarrow> 'v"

text \<open>
  How a call ends: it returns, or an exception of a callback propagates to the caller.
  Either way the caller is left with a state.
\<close>

datatype 'a ending = Returned 'a | Thrown 'a

primrec after :: "'a ending \<Rightarrow> 'a" where
  "after (Returned x) = x"
| "after (Thrown x) = x"

definition is_subscribed :: "observer_type \<Rightarrow> ('v, 'e) world \<Rightarrow> bool" where
  "is_subscribed ob w = subscribed w (get_subscription ob)"

text \<open>
  \<^verbatim>\<open>o.on_next(v)\<close>, \<^verbatim>\<open>o.on_error(e)\<close>, \<^verbatim>\<open>o.on_completed()\<close> as the dispatcher calls them: the
  world after the call, whether the callback returned or threw.
\<close>

definition deliver ::
  "('v, 'e) handler \<Rightarrow> observer_type \<Rightarrow> ('v, 'e) notification \<Rightarrow> ('v, 'e) world \<Rightarrow> ('v, 'e) world"
  where
  "deliver h ob n w =
     w\<lparr>trace := trace w @ [Deliver ob n], subscribed := effect h ob n (subscribed w)\<rparr>"

text \<open>
  The argument after the call: \<^verbatim>\<open>on_next\<close> is handed the forwarded \<^verbatim>\<open>v\<close> itself;
  \<^verbatim>\<open>on_error\<close> is handed a copy of the \<^verbatim>\<open>exception_ptr\<close>, and \<^verbatim>\<open>on_completed\<close> nothing.
\<close>

definition left ::
  "('v, 'e) handler \<Rightarrow> observer_type \<Rightarrow> ('v, 'e) notification \<Rightarrow> ('v, 'e) notification" where
  "left h ob n =
     (case n of
        OnNext v \<Rightarrow> OnNext (leaves h ob v)
      | OnError e \<Rightarrow> OnError e
      | OnCompleted \<Rightarrow> OnCompleted)"

text \<open>
  Modelled from the spec: \<^verbatim>\<open>composite_subscription::unsubscribe\<close> (rx-subscription.hpp is
  not among the sources). Section 4.1: it sets the unsubscribed flag, so that
  \<^verbatim>\<open>is_subscribed()\<close> is its negation; the children of the composite are not modelled.
\<close>

definition unsubscribe :: "nat \<Rightarrow> ('v, 'e) world \<Rightarrow> ('v, 'e) world" where
  "unsubscribe cs w =
     w\<lparr>trace := trace w @ [Unsubscribed cs], subscribed := (subscribed w)(cs := False)\<rparr>"

text \<open>
  The loop that occurs three times in the source,
  \<^verbatim>\<open>for (auto& o : c->observers) { if (o.is_subscribed()) { o.on_...(...); } }\<close>,
  with the notification as a parameter. There is no \<^verbatim>\<open>try\<close> around the call: a callback
  that throws ends the loop. The loop hands on the world and the argument as the calls
  made so far have left them.
\<close>

primrec for_each_subscribed ::
  "('v, 'e) handler \<Rightarrow> ('v, 'e) notification \<Rightarrow> observer_type list \<Rightarrow> ('v, 'e) world \<Rightarrow>
     (('v, 'e) world \<times> ('v, 'e) notification) ending"
  where
  "for_each_subscribed h n [] w = Returned (w, n)"
| "for_each_subscribed h n (ob # obs) w =
     (if is_subscribed ob w then
        (if throws h ob n (subscribed w) then Thrown (deliver h ob n w, left h ob n)
         else for_each_subscribed h (left h ob n) obs (deliver h ob n w))
      else for_each_subscribed h n obs w)"

subsection \<open>The data of the dispatcher\<close>

datatype mode = Invalid | Casting | Completed | Errored

record 'e state_type =
  generation :: "32 word"
  current :: mode
  error :: "'e exception_ptr"
  lifetime :: nat

text \<open>
  \<^verbatim>\<open>completer_type\<close>: the list of observers. Its back reference \<^verbatim>\<open>state\<close> always points to
  the state of the subject and is left out.
\<close>

record completer_type =
  observers :: "observer_type list"

record 'e binder_type =
  state :: "'e state_type"
  binder_id :: nat
  current_generation :: "32 word"
  current_completer :: "nat option"
  completer :: "nat option"

text \<open>
  A subject with everything it can reach: the binder, the heap of completers and the
  world of subscriptions.
\<close>

record ('v, 'e) subject =
  binder_of :: "'e binder_type"
  heap :: "completer_type list"
  env :: "('v, 'e) world"

text \<open>
  Dereferencing a \<^verbatim>\<open>shared_ptr<completer_type>\<close>. A non-null \<^verbatim>\<open>shared_ptr\<close> owns a live
  object; addresses beyond the heap do not arise (lemma \<open>run_ptrs_valid\<close> below) and
  read as null.
\<close>

definition deref :: "completer_type list \<Rightarrow> nat option \<Rightarrow> completer_type option" where
  "deref hp p =
     (case p of
        None \<Rightarrow> None
      | Some a \<Rightarrow> if a < length hp then Some (hp ! a) else None)"

text \<open>\<^verbatim>\<open>std::make_shared<completer_type>(...)\<close>: a fresh object at a fresh address.\<close>

definition make_shared :: "completer_type list \<Rightarrow> completer_type \<Rightarrow> completer_type list \<times> nat option"
  where
  "make_shared hp c = (hp @ [c], Some (length hp))"

text \<open>
  The constructor \<^verbatim>\<open>completer_type(s, old, o)\<close>: \<^verbatim>\<open>copy_if\<close> of the old observers that are
  still subscribed, then \<^verbatim>\<open>push_back(o)\<close>.
\<close>

definition completer_ctor ::
  "('v, 'e) world \<Rightarrow> completer_type option \<Rightarrow> observer_type \<Rightarrow> completer_type" where
  "completer_ctor w old ob =
     \<lparr>observers =
        (case old of
           None \<Rightarrow> []
         | Some c \<Rightarrow> filter (\<lambda>x. is_subscribed x w) (observers c)) @ [ob]\<rparr>"

text \<open>
  The constructors \<^verbatim>\<open>state_type(cs)\<close>, \<^verbatim>\<open>binder_type(cs)\<close> and \<^verbatim>\<open>multicast_observer(cs)\<close>.
  The identity \<open>i\<close> stands for \<^verbatim>\<open>trace_id::make_next_id_subscriber()\<close>; \<open>w\<close> is the world
  the subject is created in.
\<close>

definition state_ctor :: "nat \<Rightarrow> 'e state_type" where
  "state_ctor cs = \<lparr>generation = 0, current = Casting, error = None, lifetime = cs\<rparr>"

definition binder_ctor :: "nat \<Rightarrow> nat \<Rightarrow> 'e binder_type" where
  "binder_ctor cs i =
     \<lparr>state = state_ctor cs, binder_id = i, current_generation = 0,
      current_completer = None, completer = None\<rparr>"

definition multicast_observer :: "nat \<Rightarrow> nat \<Rightarrow> ('v, 'e) world \<Rightarrow> ('v, 'e) subject" where
  "multicast_observer cs i w = \<lparr>binder_of = binder_ctor cs i, heap = [], env = w\<rparr>"

subsection \<open>The member functions\<close>

definition get_id :: "('v, 'e) subject \<Rightarrow> nat" where
  "get_id sys = binder_id (binder_of sys)"

definition get_subscription_of :: "('v, 'e) subject \<Rightarrow> nat" where
  "get_subscription_of sys = lifetime (state (binder_of sys))"

text \<open>
  \<^verbatim>\<open>return b->current_completer && !b->current_completer->observers.empty();\<close>
\<close>

definition has_observers :: "('v, 'e) subject \<Rightarrow> bool" where
  "has_observers sys =
     (case deref (heap sys) (current_completer (binder_of sys)) of
        None \<Rightarrow> False
      | Some c \<Rightarrow> observers c \<noteq> [])"

text \<open>\<^verbatim>\<open>abort()\<close> ends the process: the one failure of the model.\<close>

datatype fault = Abort

text \<open>
  The single call \<^verbatim>\<open>o.on_completed()\<close> or \<^verbatim>\<open>o.on_error(e)\<close> that \<^verbatim>\<open>add\<close> makes after
  termination, outside the lock and with no check of \<^verbatim>\<open>is_subscribed()\<close>.
\<close>

definition notify ::
  "('v, 'e) handler \<Rightarrow> observer_type \<Rightarrow> ('v, 'e) notification \<Rightarrow> ('v, 'e) subject \<Rightarrow>
     ('v, 'e) subject ending" where
  "notify h ob n sys =
     (if throws h ob n (subscribed (env sys))
      then Thrown (sys\<lparr>env := deliver h ob n (env sys)\<rparr>)
      else Returned (sys\<lparr>env := deliver h ob n (env sys)\<rparr>))"

text \<open>
  \<^verbatim>\<open>add(sf, o)\<close>. The origin \<open>sf\<close> is only passed to \<^verbatim>\<open>trace_activity().connect\<close>, which is
  not modelled.
\<close>

definition add ::
  "('v, 'e) handler \<Rightarrow> 'sf \<Rightarrow> observer_type \<Rightarrow> ('v, 'e) subject \<Rightarrow>
     fault + ('v, 'e) subject ending"
  where
  "add h sf ob sys =
     (case current (state (binder_of sys)) of
        Casting \<Rightarrow>
          (if is_subscribed ob (env sys) then
             let (hp, p) = make_shared (heap sys)
                             (completer_ctor (env sys) (deref (heap sys) (completer (binder_of sys))) ob);
                 b1 = (binder_of sys)\<lparr>completer := p\<rparr>;
                 b2 = b1\<lparr>state := (state b1)\<lparr>generation := generation (state b1) + 1\<rparr>\<rparr>
             in Inr (Returned (sys\<lparr>binder_of := b2, heap := hp\<rparr>))
           else Inr (Returned sys))
      | Completed \<Rightarrow> Inr (notify h ob OnCompleted sys)
      | Errored \<Rightarrow>
          (let e = error (state (binder_of sys))
           in Inr (notify h ob (OnError e) sys))
      | Invalid \<Rightarrow> Inl Abort)"

definition on_next ::
  "('v, 'e) handler \<Rightarrow> 'v \<Rightarrow> ('v, 'e) subject \<Rightarrow> ('v, 'e) subject ending" where
  "on_next h v sys =
     (let b0 = binder_of sys;
          b1 = (if current_generation b0 \<noteq> generation (state b0)
                then b0\<lparr>current_generation := generation (state b0),
                        current_completer := completer b0\<rparr>
                else b0)
      in case deref (heap sys) (current_completer b1) of
           None \<Rightarrow> Returned (sys\<lparr>binder_of := b1\<rparr>)
         | Some c \<Rightarrow>
             if observers c = [] then Returned (sys\<lparr>binder_of := b1\<rparr>)
             else map_ending (\<lambda>(w, n). sys\<lparr>binder_of := b1, env := w\<rparr>)
                    (for_each_subscribed h (OnNext v) (observers c) (env sys)))"

text \<open>
  The locked block of \<^verbatim>\<open>on_error\<close>, assignment by assignment in program order: the
  successive values of the binder, and the two locals \<^verbatim>\<open>s\<close> and \<^verbatim>\<open>c\<close>.
  \<^verbatim>\<open>std::move(b->completer)\<close> leaves the canonical pointer null.
\<close>

definition on_error_locked ::
  "'e exception_ptr \<Rightarrow> 'e binder_type \<Rightarrow> 'e binder_type list \<times> nat \<times> nat option" where
  "on_error_locked e b0 =
     (let b1 = b0\<lparr>state := (state b0)\<lparr>error := e\<rparr>\<rparr>;
          b2 = b1\<lparr>state := (state b1)\<lparr>current := Errored\<rparr>\<rparr>;
          s = lifetime (state b2);
          c = completer b2;
          b3 = b2\<lparr>completer := None\<rparr>;
          b4 = b3\<lparr>current_completer := None\<rparr>;
          b5 = b4\<lparr>state := (state b4)\<lparr>generation := generation (state b4) + 1\<rparr>\<rparr>
      in ([b1, b2, b3, b4, b5], s, c))"

text \<open>
  After the locked block: the loop over the captured snapshot, then \<^verbatim>\<open>s.unsubscribe()\<close>,
  which is not reached when a callback throws.
\<close>

definition on_error ::
  "('v, 'e) handler \<Rightarrow> 'e exception_ptr \<Rightarrow> ('v, 'e) subject \<Rightarrow> ('v, 'e) subject ending" where
  "on_error h e sys =
     (if current (state (binder_of sys)) = Casting then
        let (hist, s, c) = on_error_locked e (binder_of sys);
            r = (case deref (heap sys) c of
                   None \<Rightarrow> Returned (env sys, OnError e)
                 | Some cp \<Rightarrow> for_each_subscribed h (OnError e) (observers cp) (env sys))
        in case r of
             Returned (w1, n) \<Rightarrow> Returned (sys\<lparr>binder_of := last hist, env := unsubscribe s w1\<rparr>)
           | Thrown (w1, n) \<Rightarrow> Thrown (sys\<lparr>binder_of := last hist, env := w1\<rparr>)
      else Returned sys)"

definition on_completed_locked ::
  "'e binder_type \<Rightarrow> 'e binder_type list \<times> nat \<times> nat option" where
  "on_completed_locked b0 =
     (let b1 = b0\<lparr>state := (state b0)\<lparr>current := Completed\<rparr>\<rparr>;
          s = lifetime (state b1);
          c = completer b1;
          b2 = b1\<lparr>completer := None\<rparr>;
          b3 = b2\<lparr>current_completer := None\<rparr>;
          b4 = b3\<lparr>state := (state b3)\<lparr>generation := generation (state b3) + 1\<rparr>\<rparr>
      in ([b1, b2, b3, b4], s, c))"

definition on_completed ::
  "('v, 'e) handler \<Rightarrow> ('v, 'e) subject \<Rightarrow> ('v, 'e) subject ending" where
  "on_completed h sys =
     (if current (state (binder_of sys)) = Casting then
        let (hist, s, c) = on_completed_locked (binder_of sys);
            r = (case deref (heap sys) c of
                   None \<Rightarrow> Returned (env sys, OnCompleted)
                 | Some cp \<Rightarrow> for_each_subscribed h OnCompleted (observers cp) (env sys))
        in case r of
             Returned (w1, n) \<Rightarrow> Returned (sys\<lparr>binder_of := last hist, env := unsubscribe s w1\<rparr>)
           | Thrown (w1, n) \<Rightarrow> Thrown (sys\<lparr>binder_of := last hist, env := w1\<rparr>)
      else Returned sys)"

subsection \<open>Executions\<close>

text \<open>
  One call on the subject, or a step of its surroundings: the owner of a subscription
  unsubscribes it between two calls. A run goes on after a call that ended by an
  exception (its caller may catch it), from the state that call left; only \<^verbatim>\<open>abort()\<close>
  ends a run.
\<close>

datatype ('v, 'e) call =
  Add observer_type
| Next 'v
| Error "'e exception_ptr"
| Complete
| Dispose nat

fun step ::
  "('v, 'e) handler \<Rightarrow> ('v, 'e) call \<Rightarrow> ('v, 'e) subject \<Rightarrow> fault + ('v, 'e) subject ending"
  where
  "step h (Add ob) sys = add h () ob sys"
| "step h (Next v) sys = Inr (on_next h v sys)"
| "step h (Error e) sys = Inr (on_error h e sys)"
| "step h Complete sys = Inr (on_completed h sys)"
| "step h (Dispose cs) sys =
     Inr (Returned (sys\<lparr>env := (env sys)\<lparr>subscribed := (subscribed (env sys))(cs := False)\<rparr>\<rparr>))"

fun run ::
  "('v, 'e) handler \<Rightarrow> ('v, 'e) call list \<Rightarrow> ('v, 'e) subject \<Rightarrow> fault + ('v, 'e) subject"
  where
  "run h [] sys = Inr sys"
| "run h (c # cs) sys =
     (case step h c sys of
        Inl f \<Rightarrow> Inl f
      | Inr r \<Rightarrow> run h cs (after r))"

subsection \<open>Concrete subjects for the examples\<close>

text \<open>
  Subscribers whose callbacks return, leave all subscriptions alone and only read
  their argument, in a world where every subscription is live.
\<close>

definition quiet :: "(nat, nat) handler" where
  "quiet = \<lparr>effect = (\<lambda>ob n live. live), throws = (\<lambda>ob n live. False), leaves = (\<lambda>ob v. v)\<rparr>"

text \<open>The same subscribers, but every callback of observer 1 (\<open>alice\<close> below) throws.\<close>

definition alice_throws :: "(nat, nat) handler" where
  "alice_throws = quiet\<lparr>throws := (\<lambda>ob n live. get_observer ob = 1)\<rparr>"

text \<open>The same subscribers, but \<^verbatim>\<open>on_next\<close> moves from its argument and leaves 0 there.\<close>

definition consuming :: "(nat, nat) handler" where
  "consuming = quiet\<lparr>leaves := (\<lambda>ob v. 0)\<rparr>"

definition all_live :: "(nat, nat) world" where
  "all_live = \<lparr>subscribed = (\<lambda>_. True), trace = []\<rparr>"

definition alice :: observer_type where
  "alice = \<lparr>get_observer = 1, get_subscription = 1\<rparr>"

definition bob :: observer_type where
  "bob = \<lparr>get_observer = 2, get_subscription = 2\<rparr>"

text \<open>The same world after the subscription of \<open>alice\<close> was unsubscribed.\<close>

definition alice_gone :: "(nat, nat) world" where
  "alice_gone = \<lparr>subscribed = (\<lambda>_. True)(1 := False), trace = []\<rparr>"

definition carol :: observer_type where
  "carol = \<lparr>get_observer = 3, get_subscription = 3\<rparr>"

text \<open>
  A subject in Casting mode after \<open>alice\<close> and \<open>bob\<close> were admitted and \<open>alice\<close>
  unsubscribed; no \<^verbatim>\<open>on_next\<close> has run yet (lemma \<open>busy_reached\<close>).
\<close>

definition busy :: "(nat, nat) subject" where
  "busy =
     \<lparr>binder_of =
        \<lparr>state = \<lparr>generation = 2, current = Casting, error = None, lifetime = 0\<rparr>,
         binder_id = 0, current_generation = 0, current_completer = None,
         completer = Some 1\<rparr>,
      heap = [\<lparr>observers = [alice]\<rparr>, \<lparr>observers = [alice, bob]\<rparr>],
      env = \<lparr>subscribed = (\<lambda>_. True)(1 := False), trace = []\<rparr>\<rparr>"

text \<open>The same subject after \<^verbatim>\<open>on_error\<close>, and after \<^verbatim>\<open>on_completed\<close>.\<close>

definition failed :: "(nat, nat) subject" where
  "failed = after (on_error quiet (Some 3) busy)"

definition finished :: "(nat, nat) subject" where
  "finished = after (on_completed quiet busy)"

text \<open>
  A subject in Casting mode after \<open>alice\<close> and \<open>bob\<close> were admitted, both still
  subscribed (lemma \<open>both_reached\<close>), and one where \<open>alice\<close> was admitted twice
  (lemma \<open>twice_reached\<close>).
\<close>

definition both :: "(nat, nat) subject" where
  "both =
     \<lparr>binder_of =
        \<lparr>state = \<lparr>generation = 2, current = Casting, error = None, lifetime = 0\<rparr>,
         binder_id = 0, current_generation = 0, current_completer = None,
         completer = Some 1\<rparr>,
      heap = [\<lparr>observers = [alice]\<rparr>, \<lparr>observers = [alice, bob]\<rparr>],
      env = all_live\<rparr>"

definition twice :: "(nat, nat) subject" where
  "twice =
     \<lparr>binder_of =
        \<lparr>state = \<lparr>generation = 2, current = Casting, error = None, lifetime = 0\<rparr>,
         binder_id = 0, current_generation = 0, current_completer = None,
         completer = Some 1\<rparr>,
      heap = [\<lparr>observers = [alice]\<rparr>, \<lparr>observers = [alice, alice]\<rparr>],
      env = all_live\<rparr>"

section \<open>Auxiliary facts\<close>

subsection \<open>The fan-out loop\<close>



text \<open>The loop with the exceptions of the callbacks ignored always returns.\<close>

lemma for_each_subscribed_calm:
  "\<exists>r. for_each_subscribed (h\<lparr>throws := (\<lambda>ob n live. False)\<rparr>) n obs w = Returned r"
  by (induction obs arbitrary: n w) (simp_all add: deliver_def left_def)






lemma left_terminal: "(\<forall>v. n \<noteq> OnNext v) \<Longrightarrow> left h x n = n"
  by (cases n) (simp_all add: left_def)




subsection \<open>What single calls do and leave alone\<close>

lemma on_next_eq:
  fixes sys :: "('v, 'e) subject" and h :: "('v, 'e) handler" and v :: 'v
  defines "b1 \<equiv> (if current_generation (binder_of sys) \<noteq> generation (state (binder_of sys))
                  then (binder_of sys)\<lparr>current_generation := generation (state (binder_of sys)),
                         current_completer := completer (binder_of sys)\<rparr>
                  else binder_of sys)"
  defines "obs \<equiv> (case deref (heap sys) (current_completer b1) of
                      None \<Rightarrow> [] | Some c \<Rightarrow> observers c)"
  shows "on_next h v sys =
           map_ending (\<lambda>(w, n). sys\<lparr>binder_of := b1, env := w\<rparr>)
             (for_each_subscribed h (OnNext v) obs (env sys))"
  unfolding obs_def b1_def
  by (simp add: on_next_def Let_def split: option.splits)

lemma after_map_ending: "after (map_ending f r) = f (after r)"
  by (cases r) simp_all

lemma on_next_state: "state (binder_of (after (on_next h v sys))) = state (binder_of sys)"
  by (simp add: on_next_eq after_map_ending split_beta)


lemma on_error_idle:
  "current (state (binder_of sys)) \<noteq> Casting \<Longrightarrow> on_error h e sys = Returned sys"
  by (simp add: on_error_def)

lemma on_completed_idle:
  "current (state (binder_of sys)) \<noteq> Casting \<Longrightarrow> on_completed h sys = Returned sys"
  by (simp add: on_completed_def)

text \<open>
  \<^verbatim>\<open>on_error\<close> and \<^verbatim>\<open>on_completed\<close> in Casting mode: the binder the locked block leaves, and
  the world the loop leaves, unsubscribed only if the loop returned.
\<close>

lemma on_error_casting:
  fixes sys :: "('v, 'e) subject"
  assumes "current (state (binder_of sys)) = Casting"
  defines "obs \<equiv> (case deref (heap sys) (completer (binder_of sys)) of
                      None \<Rightarrow> [] | Some c \<Rightarrow> observers c)"
  shows "on_error h e sys =
           (case for_each_subscribed h (OnError e) obs (env sys) of
              Returned (w1, n) \<Rightarrow>
                Returned (sys\<lparr>binder_of := last (fst (on_error_locked e (binder_of sys))),
                              env := unsubscribe (lifetime (state (binder_of sys))) w1\<rparr>)
            | Thrown (w1, n) \<Rightarrow>
                Thrown (sys\<lparr>binder_of := last (fst (on_error_locked e (binder_of sys))),
                            env := w1\<rparr>))"
  using assms(1) unfolding obs_def
  by (simp add: on_error_def on_error_locked_def Let_def
      split: option.splits ending.splits prod.splits)

lemma on_completed_casting:
  fixes sys :: "('v, 'e) subject"
  assumes "current (state (binder_of sys)) = Casting"
  defines "obs \<equiv> (case deref (heap sys) (completer (binder_of sys)) of
                      None \<Rightarrow> [] | Some c \<Rightarrow> observers c)"
  shows "on_completed h sys =
           (case for_each_subscribed h OnCompleted obs (env sys) of
              Returned (w1, n) \<Rightarrow>
                Returned (sys\<lparr>binder_of := last (fst (on_completed_locked (binder_of sys))),
                              env := unsubscribe (lifetime (state (binder_of sys))) w1\<rparr>)
            | Thrown (w1, n) \<Rightarrow>
                Thrown (sys\<lparr>binder_of := last (fst (on_completed_locked (binder_of sys))),
                            env := w1\<rparr>))"
  using assms(1) unfolding obs_def
  by (simp add: on_completed_def on_completed_locked_def Let_def
      split: option.splits ending.splits prod.splits)

lemma on_error_locked_history:
  "fst (on_error_locked e b) =
     [b\<lparr>state := (state b)\<lparr>error := e\<rparr>\<rparr>,
      b\<lparr>state := (state b)\<lparr>error := e, current := Errored\<rparr>\<rparr>,
      b\<lparr>state := (state b)\<lparr>error := e, current := Errored\<rparr>, completer := None\<rparr>,
      b\<lparr>state := (state b)\<lparr>error := e, current := Errored\<rparr>, completer := None,
        current_completer := None\<rparr>,
      b\<lparr>state := (state b)\<lparr>error := e, current := Errored,
                            generation := generation (state b) + 1\<rparr>,
        completer := None, current_completer := None\<rparr>]"
  by (simp add: on_error_locked_def Let_def)

lemma on_completed_locked_last:
  "last (fst (on_completed_locked b)) =
     b\<lparr>state := (state b)\<lparr>current := Completed, generation := generation (state b) + 1\<rparr>,
       completer := None, current_completer := None\<rparr>"
  by (simp add: on_completed_locked_def Let_def)

lemma on_error_mode:
  "current (state (binder_of (after (on_error h e sys)))) =
     (if current (state (binder_of sys)) = Casting then Errored else current (state (binder_of sys)))"
proof (cases "current (state (binder_of sys)) = Casting")
  case True
  then show ?thesis
    by (simp add: on_error_casting on_error_locked_history split: ending.splits prod.splits)
next
  case False
  then show ?thesis by (simp add: on_error_idle)
qed

lemma on_completed_mode:
  "current (state (binder_of (after (on_completed h sys)))) =
     (if current (state (binder_of sys)) = Casting then Completed else current (state (binder_of sys)))"
proof (cases "current (state (binder_of sys)) = Casting")
  case True
  then show ?thesis
    by (simp add: on_completed_casting on_completed_locked_last split: ending.splits prod.splits)
next
  case False
  then show ?thesis by (simp add: on_completed_idle)
qed

lemma add_mode:
  "add h sf ob sys = Inr r \<Longrightarrow>
   current (state (binder_of (after r))) = current (state (binder_of sys))"
  by (auto simp: add_def notify_def make_shared_def Let_def split: mode.splits if_splits)

lemma add_abort: "add h sf ob sys = Inl f \<longleftrightarrow> current (state (binder_of sys)) = Invalid"
  by (cases f) (auto simp: add_def notify_def make_shared_def Let_def split: mode.splits if_splits)

lemma add_casting_generation:
  assumes "current (state (binder_of sys)) = Casting" and "is_subscribed ob (env sys)"
  shows "\<exists>sys'. add h sf ob sys = Inr (Returned sys') \<and>
           generation (state (binder_of sys')) = generation (state (binder_of sys)) + 1 \<and>
           current (state (binder_of sys')) = Casting \<and> env sys' = env sys"
  using assms by (simp add: add_def make_shared_def)

lemma step_abort: "step h c sys = Inl f \<Longrightarrow> current (state (binder_of sys)) = Invalid"
  by (cases c) (simp_all add: add_abort)

lemma step_mode_terminal:
  assumes "current (state (binder_of sys)) \<noteq> Casting" and "step h c sys = Inr r"
  shows "current (state (binder_of (after r))) = current (state (binder_of sys))"
proof (cases c)
  case (Add ob)
  with assms show ?thesis by (simp add: add_mode)
next
  case (Next v)
  with assms show ?thesis by (auto simp: on_next_state)
next
  case (Error e)
  with assms show ?thesis by (auto simp: on_error_idle)
next
  case Complete
  with assms show ?thesis by (auto simp: on_completed_idle)
next
  case (Dispose x)
  with assms show ?thesis by auto
qed

lemma step_mode_valid:
  assumes "current (state (binder_of sys)) \<noteq> Invalid"
  shows "\<exists>r. step h c sys = Inr r \<and> current (state (binder_of (after r))) \<noteq> Invalid"
proof (cases c)
  case (Add ob)
  from assms obtain r where a: "add h () ob sys = Inr r"
    using add_abort [of h "()" ob sys] by (cases "add h () ob sys") auto
  with assms Add show ?thesis by (simp add: add_mode)
next
  case (Next v)
  with assms show ?thesis by (simp add: on_next_state)
next
  case (Error e)
  with assms show ?thesis by (simp add: on_error_mode)
next
  case Complete
  with assms show ?thesis by (simp add: on_completed_mode)
next
  case (Dispose x)
  with assms show ?thesis by simp
qed

lemma run_mode_valid:
  "current (state (binder_of sys)) \<noteq> Invalid \<Longrightarrow>
   \<exists>sys'. run h cs sys = Inr sys' \<and> current (state (binder_of sys')) \<noteq> Invalid"
proof (induction cs arbitrary: sys)
  case Nil
  then show ?case by simp
next
  case (Cons c cs)
  from step_mode_valid [OF Cons.prems, of h c] obtain r
    where r: "step h c sys = Inr r" "current (state (binder_of (after r))) \<noteq> Invalid" by blast
  from Cons.IH [OF r(2)] r(1) show ?case by simp
qed

lemma run_append:
  "run h (xs @ ys) sys = (case run h xs sys of Inl f \<Rightarrow> Inl f | Inr s \<Rightarrow> run h ys s)"
  by (induction xs arbitrary: sys) (simp_all split: sum.splits)



subsection \<open>The generation counter\<close>

text \<open>Below \<^verbatim>\<open>INT_MAX\<close> the increment does not wrap.\<close>

lemma sint_succ:
  fixes g :: "32 word"
  assumes "sint g < 2147483647"
  shows "sint (g + 1) = sint g + 1"
proof -
  have lo: "- (2 ^ 31) \<le> sint g" using sint_ge [of g] by simp
  have "sint (g + 1) = signed_take_bit 31 (sint g + 1)"
    by (simp add: sint_word_ariths)
  also have "\<dots> = sint g + 1"
    using lo assms by (intro signed_take_bit_int_eq_self) simp_all
  finally show ?thesis .
qed

lemma on_error_generation:
  "generation (state (binder_of (after (on_error h e sys)))) =
     generation (state (binder_of sys)) +
       (if current (state (binder_of sys)) = Casting then 1 else 0)"
proof (cases "current (state (binder_of sys)) = Casting")
  case True
  then show ?thesis
    by (simp add: on_error_casting on_error_locked_history split: ending.splits prod.splits)
next
  case False
  then show ?thesis by (simp add: on_error_idle)
qed

lemma on_completed_generation:
  "generation (state (binder_of (after (on_completed h sys)))) =
     generation (state (binder_of sys)) +
       (if current (state (binder_of sys)) = Casting then 1 else 0)"
proof (cases "current (state (binder_of sys)) = Casting")
  case True
  then show ?thesis
    by (simp add: on_completed_casting on_completed_locked_last split: ending.splits prod.splits)
next
  case False
  then show ?thesis by (simp add: on_completed_idle)
qed

lemma step_generation:
  assumes "step h c sys = Inr r"
  shows "generation (state (binder_of (after r))) =
           generation (state (binder_of sys)) +
             (if current (state (binder_of sys)) = Casting \<and>
                 (case c of Add ob \<Rightarrow> is_subscribed ob (env sys) | Next v \<Rightarrow> False
                  | Error x \<Rightarrow> True | Complete \<Rightarrow> True | Dispose x \<Rightarrow> False)
              then 1 else 0)"
proof (cases c)
  case (Add ob)
  with assms show ?thesis
    by (auto simp: add_def notify_def make_shared_def Let_def split: mode.splits if_splits)
next
  case (Next v)
  with assms show ?thesis by (auto simp: on_next_state)
next
  case (Error e)
  with assms show ?thesis by (auto simp: on_error_generation)
next
  case Complete
  with assms show ?thesis by (auto simp: on_completed_generation)
next
  case (Dispose x)
  with assms show ?thesis by auto
qed

text \<open>
  Along a run in which every call is made from a state whose counter is below
  \<^verbatim>\<open>INT_MAX\<close>, the counter never decreases.
\<close>

lemma run_generation:
  assumes "run h cs sys = Inr sys'"
    and "\<forall>k<length cs. \<forall>s. run h (take k cs) sys = Inr s \<longrightarrow>
           sint (generation (state (binder_of s))) < 2147483647"
  shows "sint (generation (state (binder_of sys))) \<le> sint (generation (state (binder_of sys')))"
  using assms
proof (induction cs arbitrary: sys)
  case Nil
  then show ?case by simp
next
  case (Cons c cs)
  from Cons.prems(1) obtain r where r: "step h c sys = Inr r" and rest: "run h cs (after r) = Inr sys'"
    by (auto split: sum.splits)
  let ?g = "generation (state (binder_of sys))"
  have below: "sint ?g < 2147483647"
    using Cons.prems(2) [rule_format, of 0 sys] by simp
  have "generation (state (binder_of (after r))) = ?g \<or>
        generation (state (binder_of (after r))) = ?g + 1"
    using step_generation [OF r] by (simp split: if_splits)
  then have g1: "sint ?g \<le> sint (generation (state (binder_of (after r))))"
    using sint_succ [OF below] by auto
  have "\<forall>k<length cs. \<forall>s. run h (take k cs) (after r) = Inr s \<longrightarrow>
           sint (generation (state (binder_of s))) < 2147483647"
  proof (intro allI impI)
    fix k s
    assume k: "k < length cs" and s: "run h (take k cs) (after r) = Inr s"
    from s r have "run h (take (Suc k) (c # cs)) sys = Inr s" by simp
    with k Cons.prems(2) [rule_format, of "Suc k" s]
    show "sint (generation (state (binder_of s))) < 2147483647" by simp
  qed
  from Cons.IH [OF rest this] g1 show ?case by simp
qed

lemma run_replicate_add:
  assumes "current (state (binder_of sys)) = Casting" and "is_subscribed ob (env sys)"
  shows "\<exists>sys'. run h (replicate k (Add ob)) sys = Inr sys' \<and>
           generation (state (binder_of sys')) = generation (state (binder_of sys)) + of_nat k \<and>
           current (state (binder_of sys')) = Casting \<and> env sys' = env sys"
  using assms
proof (induction k arbitrary: sys)
  case 0
  then show ?case by simp
next
  case (Suc k)
  from add_casting_generation [OF Suc.prems, of h "()"] obtain s1
    where s1: "add h () ob sys = Inr (Returned s1)"
      "generation (state (binder_of s1)) = generation (state (binder_of sys)) + 1"
      "current (state (binder_of s1)) = Casting" "env s1 = env sys"
    by blast
  from Suc.prems(2) s1(4) have "is_subscribed ob (env s1)" by simp
  from Suc.IH [OF s1(3) this] s1 show ?case by (auto simp: algebra_simps)
qed

subsection \<open>Snapshot pointers stay inside the heap\<close>

lemma step_ptrs_valid:
  assumes "(\<forall>a. completer (binder_of sys) = Some a \<longrightarrow> a < length (heap sys)) \<and>
           (\<forall>a. current_completer (binder_of sys) = Some a \<longrightarrow> a < length (heap sys))"
    and "step h c sys = Inr r"
  shows "(\<forall>a. completer (binder_of (after r)) = Some a \<longrightarrow> a < length (heap (after r))) \<and>
         (\<forall>a. current_completer (binder_of (after r)) = Some a \<longrightarrow> a < length (heap (after r)))"
proof (cases c)
  case (Add ob)
  with assms show ?thesis
    by (auto simp: add_def notify_def make_shared_def Let_def less_Suc_eq
        split: mode.splits if_splits)
next
  case (Next v)
  with assms show ?thesis
    by (auto simp: on_next_eq after_map_ending split_beta split: if_splits)
next
  case (Error e)
  show ?thesis
  proof (cases "current (state (binder_of sys)) = Casting")
    case True
    with assms Error show ?thesis
      by (auto simp: on_error_casting on_error_locked_history split: ending.splits prod.splits)
  next
    case False
    with assms Error show ?thesis by (auto simp: on_error_idle)
  qed
next
  case Complete
  show ?thesis
  proof (cases "current (state (binder_of sys)) = Casting")
    case True
    with assms Complete show ?thesis
      by (auto simp: on_completed_casting on_completed_locked_last split: ending.splits prod.splits)
  next
    case False
    with assms Complete show ?thesis by (auto simp: on_completed_idle)
  qed
next
  case (Dispose x)
  with assms show ?thesis by auto
qed

lemma run_ptrs_valid:
  assumes "run h cs (multicast_observer lt i w) = Inr sys"
  shows "(\<forall>a. completer (binder_of sys) = Some a \<longrightarrow> a < length (heap sys)) \<and>
         (\<forall>a. current_completer (binder_of sys) = Some a \<longrightarrow> a < length (heap sys))"
proof -
  have gen: "run h cs s0 = Inr sys \<Longrightarrow>
      (\<forall>a. completer (binder_of s0) = Some a \<longrightarrow> a < length (heap s0)) \<and>
      (\<forall>a. current_completer (binder_of s0) = Some a \<longrightarrow> a < length (heap s0)) \<Longrightarrow>
      (\<forall>a. completer (binder_of sys) = Some a \<longrightarrow> a < length (heap sys)) \<and>
      (\<forall>a. current_completer (binder_of sys) = Some a \<longrightarrow> a < length (heap sys))" for s0
  proof (induction cs arbitrary: s0)
    case Nil
    then show ?case by simp
  next
    case (Cons c cs)
    from Cons.prems(1) obtain r where r: "step h c s0 = Inr r" and rest: "run h cs (after r) = Inr sys"
      by (auto split: sum.splits)
    from Cons.IH [OF rest step_ptrs_valid [OF Cons.prems(2) r]] show ?case .
  qed
  show ?thesis
    by (rule gen [OF assms]) (simp add: multicast_observer_def binder_ctor_def)
qed

subsection \<open>The example subjects\<close>

lemma busy_reached:
  "run quiet [Add alice, Add bob, Dispose 1] (multicast_observer 0 0 all_live) = Inr busy"
  by (simp add: busy_def add_def multicast_observer_def binder_ctor_def state_ctor_def
      all_live_def is_subscribed_def alice_def bob_def make_shared_def completer_ctor_def
      deref_def)

lemma both_reached:
  "run quiet [Add alice, Add bob] (multicast_observer 0 0 all_live) = Inr both"
  by (simp add: both_def add_def multicast_observer_def binder_ctor_def state_ctor_def
      all_live_def is_subscribed_def alice_def bob_def make_shared_def completer_ctor_def
      deref_def)

lemma twice_reached:
  "run quiet [Add alice, Add alice] (multicast_observer 0 0 all_live) = Inr twice"
  by (simp add: twice_def add_def multicast_observer_def binder_ctor_def state_ctor_def
      all_live_def is_subscribed_def alice_def make_shared_def completer_ctor_def
      deref_def)

lemma failed_eq:
  "failed =
     \<lparr>binder_of =
        \<lparr>state = \<lparr>generation = 3, current = Errored, error = Some 3, lifetime = 0\<rparr>,
         binder_id = 0, current_generation = 0, current_completer = None,
         completer = None\<rparr>,
      heap = [\<lparr>observers = [alice]\<rparr>, \<lparr>observers = [alice, bob]\<rparr>],
      env = \<lparr>subscribed = (\<lambda>_. True)(1 := False, 0 := False),
             trace = [Deliver bob (OnError (Some 3)), Unsubscribed 0]\<rparr>\<rparr>"
  by (simp add: failed_def busy_def on_error_def on_error_locked_def Let_def deref_def
      is_subscribed_def alice_def bob_def deliver_def quiet_def unsubscribe_def left_def)

lemma failed_returned: "on_error quiet (Some 3) busy = Returned failed"
  by (simp add: failed_def busy_def on_error_def on_error_locked_def Let_def deref_def
      is_subscribed_def alice_def bob_def deliver_def quiet_def unsubscribe_def left_def)

lemma finished_eq:
  "finished =
     \<lparr>binder_of =
        \<lparr>state = \<lparr>generation = 3, current = Completed, error = None, lifetime = 0\<rparr>,
         binder_id = 0, current_generation = 0, current_completer = None,
         completer = None\<rparr>,
      heap = [\<lparr>observers = [alice]\<rparr>, \<lparr>observers = [alice, bob]\<rparr>],
      env = \<lparr>subscribed = (\<lambda>_. True)(1 := False, 0 := False),
             trace = [Deliver bob OnCompleted, Unsubscribed 0]\<rparr>\<rparr>"
  by (simp add: finished_def busy_def on_completed_def on_completed_locked_def Let_def deref_def
      is_subscribed_def alice_def bob_def deliver_def quiet_def unsubscribe_def left_def)

lemma finished_returned: "on_completed quiet busy = Returned finished"
  by (simp add: finished_def busy_def on_completed_def on_completed_locked_def Let_def deref_def
      is_subscribed_def alice_def bob_def deliver_def quiet_def unsubscribe_def left_def)

text \<open>
  What line 163 does with an argument that a callback moves from: \<^verbatim>\<open>std::forward<V>(v)\<close>
  stands inside the loop, so the next subscriber is handed what is left of \<^verbatim>\<open>v\<close>.
\<close>

lemma on_next_forwards_one_argument:
  "on_next consuming 7 both =
     Returned (both\<lparr>binder_of := (binder_of both)\<lparr>current_generation := 2, current_completer := Some 1\<rparr>,
                    env := \<lparr>subscribed = (\<lambda>_. True),
                            trace = [Deliver alice (OnNext 7), Deliver bob (OnNext 0)]\<rparr>\<rparr>)"
  by (simp add: both_def on_next_def deref_def all_live_def is_subscribed_def alice_def bob_def
      consuming_def quiet_def deliver_def left_def Let_def)

section \<open>Properties\<close>

text \<open>
  C1. \<^verbatim>\<open>has_observers()\<close> should be true exactly when the canonical snapshot exists and
  is non-empty, in particular right after a subscribed observer was admitted in Casting
  mode and before any \<^verbatim>\<open>on_next\<close>. The code reads the hot-path pointer
  \<^verbatim>\<open>current_completer\<close> instead of the canonical \<^verbatim>\<open>completer\<close>: on a new subject, after
  \<^verbatim>\<open>add\<close> of the subscribed observer \<open>alice\<close>, the canonical snapshot is \<open>[alice]\<close> and
  \<^verbatim>\<open>has_observers()\<close> is false; it turns true only once an \<^verbatim>\<open>on_next\<close> has refreshed the
  hot-path pointer.
\<close>

theorem has_observers_false_after_admission:
  "(case add quiet () alice (multicast_observer 0 0 all_live) of
      Inl f \<Rightarrow> False
    | Inr (Thrown sys) \<Rightarrow> False
    | Inr (Returned sys) \<Rightarrow>
        is_subscribed alice (env sys) \<and>
        deref (heap sys) (completer (binder_of sys)) = Some \<lparr>observers = [alice]\<rparr> \<and>
        \<not> has_observers sys \<and>
        has_observers (after (on_next quiet 5 sys)))"
  by (simp add: add_def multicast_observer_def binder_ctor_def state_ctor_def all_live_def
      is_subscribed_def alice_def make_shared_def completer_ctor_def deref_def
      has_observers_def on_next_def quiet_def deliver_def left_def)

text \<open>
  C2. In Casting mode, \<^verbatim>\<open>add\<close> of an observer whose \<^verbatim>\<open>is_subscribed()\<close> is true returns
  and publishes as the canonical snapshot a new object whose observers are the
  still-subscribed observers of the previous canonical snapshot, in their order, with
  the new observer appended (only the new observer when there was no previous
  snapshot); the generation counter is incremented; the new object is allocated behind
  the existing ones, every existing snapshot object reads as before, and the hot-path
  pointer, the hot generation, Mode, stored error, lifetime and the world are unchanged.
\<close>

theorem add_casting_publishes:
  fixes sys :: "('v, 'e) subject"
  assumes "current (state (binder_of sys)) = Casting" and "is_subscribed ob (env sys)"
  defines "old \<equiv> (case deref (heap sys) (completer (binder_of sys)) of
                      None \<Rightarrow> [] | Some c \<Rightarrow> observers c)"
  shows "\<exists>sys'. add h sf ob sys = Inr (Returned sys') \<and>
           deref (heap sys') (completer (binder_of sys')) =
             Some \<lparr>observers = filter (\<lambda>x. is_subscribed x (env sys)) old @ [ob]\<rparr> \<and>
           generation (state (binder_of sys')) = generation (state (binder_of sys)) + 1 \<and>
           completer (binder_of sys') = Some (length (heap sys)) \<and>
           heap sys' =
             heap sys @ [\<lparr>observers = filter (\<lambda>x. is_subscribed x (env sys)) old @ [ob]\<rparr>] \<and>
           (\<forall>a < length (heap sys). deref (heap sys') (Some a) = deref (heap sys) (Some a)) \<and>
           current_completer (binder_of sys') = current_completer (binder_of sys) \<and>
           current_generation (binder_of sys') = current_generation (binder_of sys) \<and>
           current (state (binder_of sys')) = Casting \<and>
           error (state (binder_of sys')) = error (state (binder_of sys)) \<and>
           lifetime (state (binder_of sys')) = lifetime (state (binder_of sys)) \<and>
           env sys' = env sys"
  using assms(1,2) unfolding old_def
  by (simp add: add_def make_shared_def completer_ctor_def deref_def nth_append
      split: option.splits)

theorem add_casting_publishes_witness:
  "current (state (binder_of busy)) = Casting \<and> is_subscribed carol (env busy) \<and>
   (\<exists>sys'. add quiet () carol busy = Inr (Returned sys') \<and>
      deref (heap sys') (completer (binder_of sys')) = Some \<lparr>observers = [bob, carol]\<rparr> \<and>
      generation (state (binder_of sys')) = 3 \<and>
      heap sys' = [\<lparr>observers = [alice]\<rparr>, \<lparr>observers = [alice, bob]\<rparr>, \<lparr>observers = [bob, carol]\<rparr>])"
proof -
  have a: "current (state (binder_of busy)) = Casting" by (simp add: busy_def)
  have b: "is_subscribed carol (env busy)" by (simp add: busy_def is_subscribed_def carol_def)
  from add_casting_publishes [OF a b, of quiet "()"] obtain sys'
    where "add quiet () carol busy = Inr (Returned sys')"
      and "deref (heap sys') (completer (binder_of sys')) =
           Some \<lparr>observers = filter (\<lambda>x. is_subscribed x (env busy))
             (case deref (heap busy) (completer (binder_of busy)) of None \<Rightarrow> [] | Some c \<Rightarrow> observers c) @ [carol]\<rparr>"
      and "generation (state (binder_of sys')) = generation (state (binder_of busy)) + 1"
      and "heap sys' = heap busy @ [\<lparr>observers = filter (\<lambda>x. is_subscribed x (env busy))
             (case deref (heap busy) (completer (binder_of busy)) of None \<Rightarrow> [] | Some c \<Rightarrow> observers c) @ [carol]\<rparr>]"
    by blast
  then have "add quiet () carol busy = Inr (Returned sys') \<and>
      deref (heap sys') (completer (binder_of sys')) = Some \<lparr>observers = [bob, carol]\<rparr> \<and>
      generation (state (binder_of sys')) = 3 \<and>
      heap sys' = [\<lparr>observers = [alice]\<rparr>, \<lparr>observers = [alice, bob]\<rparr>, \<lparr>observers = [bob, carol]\<rparr>]"
    by (simp add: busy_def deref_def is_subscribed_def alice_def bob_def)
  with a b show ?thesis by blast
qed

text \<open>
  C3. After termination \<^verbatim>\<open>add\<close> makes, exactly once and whether or not the observer is
  still subscribed, the call \<^verbatim>\<open>on_completed()\<close> of the observer when Mode is Completed and
  \<^verbatim>\<open>on_error(e)\<close> with the stored error when Mode is Errored: the trace grows by this one
  call and by nothing else (no value is delivered), and the binder (Mode, stored error,
  generation, both snapshot pointers) and the heap of snapshots are unchanged. \<^verbatim>\<open>add\<close>
  returns when the callback returns, and passes its exception on when it throws.
\<close>

theorem add_after_termination:
  fixes sys :: "('v, 'e) subject"
  assumes "current (state (binder_of sys)) = Completed \<or> current (state (binder_of sys)) = Errored"
  defines "signal \<equiv> (if current (state (binder_of sys)) = Completed then OnCompleted
                       else OnError (error (state (binder_of sys))))"
  shows "\<exists>sys'. add h sf ob sys =
                  Inr (if throws h ob signal (subscribed (env sys)) then Thrown sys'
                       else Returned sys') \<and>
           trace (env sys') = trace (env sys) @ [Deliver ob signal] \<and>
           subscribed (env sys') = effect h ob signal (subscribed (env sys)) \<and>
           binder_of sys' = binder_of sys \<and>
           heap sys' = heap sys"
  using assms(1) unfolding signal_def
  by (auto simp: add_def notify_def deliver_def Let_def)

theorem add_after_termination_witness:
  "current (state (binder_of finished)) = Completed \<and>
   current (state (binder_of failed)) = Errored \<and>
   \<not> is_subscribed alice (env finished) \<and>
   (\<exists>sys'. add quiet () alice finished = Inr (Returned sys') \<and>
      trace (env sys') = trace (env finished) @ [Deliver alice OnCompleted] \<and>
      binder_of sys' = binder_of finished \<and> heap sys' = heap finished) \<and>
   (\<exists>sys'. add alice_throws () alice failed = Inr (Thrown sys') \<and>
      trace (env sys') = trace (env failed) @ [Deliver alice (OnError (Some 3))] \<and>
      binder_of sys' = binder_of failed \<and> heap sys' = heap failed)"
proof -
  have a: "current (state (binder_of finished)) = Completed" by (simp add: finished_eq)
  have b: "current (state (binder_of failed)) = Errored" by (simp add: failed_eq)
  have c: "\<not> is_subscribed alice (env finished)"
    by (simp add: finished_eq is_subscribed_def alice_def)
  have d: "error (state (binder_of failed)) = Some 3" by (simp add: failed_eq)
  have q: "\<not> throws quiet alice OnCompleted (subscribed (env finished))"
    by (simp add: quiet_def)
  have t: "throws alice_throws alice (OnError (Some 3)) (subscribed (env failed))"
    by (simp add: alice_throws_def quiet_def alice_def)
  from a have a': "current (state (binder_of finished)) = Completed \<or>
                   current (state (binder_of finished)) = Errored" by simp
  from b have b': "current (state (binder_of failed)) = Completed \<or>
                   current (state (binder_of failed)) = Errored" by simp
  have e: "\<exists>sys'. add quiet () alice finished = Inr (Returned sys') \<and>
      trace (env sys') = trace (env finished) @ [Deliver alice OnCompleted] \<and>
      binder_of sys' = binder_of finished \<and> heap sys' = heap finished"
    using add_after_termination [OF a', where h = quiet and sf = "()" and ob = alice] a q
    by auto
  have f: "\<exists>sys'. add alice_throws () alice failed = Inr (Thrown sys') \<and>
      trace (env sys') = trace (env failed) @ [Deliver alice (OnError (Some 3))] \<and>
      binder_of sys' = binder_of failed \<and> heap sys' = heap failed"
    using add_after_termination [OF b', where h = alice_throws and sf = "()" and ob = alice] b d t
    by auto
  from a b c e f show ?thesis by blast
qed

text \<open>
  C4. Once Mode is not Casting it never changes again, whatever is called afterwards
  (\<^verbatim>\<open>add\<close>, \<^verbatim>\<open>on_next\<close>, \<^verbatim>\<open>on_error\<close>, \<^verbatim>\<open>on_completed\<close>, subscriptions ending, callbacks
  throwing), and in every state so reached \<^verbatim>\<open>on_error(e)\<close> and \<^verbatim>\<open>on_completed()\<close> return
  and leave the subject and the world exactly as they were: no field changes and
  nothing is delivered. A run from such a state fails only on \<^verbatim>\<open>abort()\<close>, that is when
  Mode was Invalid.
\<close>

theorem terminal_mode_absorbing:
  assumes "current (state (binder_of sys)) \<noteq> Casting"
  shows "case run h cs sys of
           Inl f \<Rightarrow> current (state (binder_of sys)) = Invalid
         | Inr sys' \<Rightarrow>
             current (state (binder_of sys')) = current (state (binder_of sys)) \<and>
             on_error h e sys' = Returned sys' \<and> on_completed h sys' = Returned sys'"
  using assms
proof (induction cs arbitrary: sys)
  case Nil
  then show ?case by (simp add: on_error_idle on_completed_idle)
next
  case (Cons c cs)
  show ?case
  proof (cases "step h c sys")
    case (Inl f)
    then show ?thesis by (simp add: step_abort)
  next
    case (Inr r)
    have m: "current (state (binder_of (after r))) = current (state (binder_of sys))"
      using step_mode_terminal [OF Cons.prems Inr] .
    with Cons.prems have "current (state (binder_of (after r))) \<noteq> Casting" by simp
    from Cons.IH [OF this] show ?thesis by (simp add: Inr m split: sum.splits)
  qed
qed

theorem terminal_mode_absorbing_witness:
  "current (state (binder_of failed)) \<noteq> Casting \<and>
   (case run alice_throws [Error (Some 9), Complete, Add alice, Next 5, Complete] failed of
      Inl f \<Rightarrow> False
    | Inr sys' \<Rightarrow>
        current (state (binder_of sys')) = Errored \<and>
        error (state (binder_of sys')) = Some 3 \<and>
        on_error alice_throws (Some 9) sys' = Returned sys' \<and>
        on_completed alice_throws sys' = Returned sys')"
proof -
  have a: "current (state (binder_of failed)) \<noteq> Casting" by (simp add: failed_eq)
  have b: "current (state (binder_of failed)) = Errored" by (simp add: failed_eq)
  have r: "\<exists>s. run alice_throws [Error (Some 9), Complete, Add alice, Next 5, Complete] failed = Inr s \<and>
               error (state (binder_of s)) = Some 3"
    by (simp add: failed_eq on_error_def on_completed_def add_def notify_def on_next_def
        deref_def Let_def)
  from terminal_mode_absorbing [OF a, where h = alice_throws
      and cs = "[Error (Some 9), Complete, Add alice, Next 5, Complete]" and e = "Some 9"]
    a b r show ?thesis by (auto split: sum.splits)
qed







text \<open>
  C7. The claim that every call of \<^verbatim>\<open>add\<close>, \<^verbatim>\<open>on_error\<close> and \<^verbatim>\<open>on_completed\<close> strictly
  increases the generation fails: \<^verbatim>\<open>add\<close> of an unsubscribed observer, \<^verbatim>\<open>add\<close> after
  termination and repeated terminal calls leave the counter as it is, and the counter
  is a 32-bit \<^verbatim>\<open>int\<close> that wraps from \<^verbatim>\<open>INT_MAX\<close> to \<^verbatim>\<open>INT_MIN\<close> at the next admission.
\<close>

theorem generation_not_strict_counterexample:
  "generation (state (binder_of (multicast_observer 0 0 alice_gone :: (nat, nat) subject))) = 0 \<and>
   add quiet () alice (multicast_observer 0 0 alice_gone) =
     Inr (Returned (multicast_observer 0 0 alice_gone)) \<and>
   generation (state (binder_of failed)) = 3 \<and>
   (case add quiet () bob failed of
      Inl f \<Rightarrow> False
    | Inr r \<Rightarrow> generation (state (binder_of (after r))) = 3) \<and>
   on_error quiet (Some 4) failed = Returned failed \<and>
   on_completed quiet failed = Returned failed \<and>
   (\<exists>s1 s2. run quiet (replicate 2147483647 (Add alice)) (multicast_observer 0 0 all_live) = Inr s1 \<and>
      add quiet () alice s1 = Inr (Returned s2) \<and>
      sint (generation (state (binder_of s1))) = 2147483647 \<and>
      sint (generation (state (binder_of s2))) = - 2147483648)"
proof -
  have small: "generation (state (binder_of (multicast_observer 0 0 alice_gone :: (nat, nat) subject))) = 0 \<and>
   add quiet () alice (multicast_observer 0 0 alice_gone) =
     Inr (Returned (multicast_observer 0 0 alice_gone)) \<and>
   generation (state (binder_of failed)) = 3 \<and>
   (case add quiet () bob failed of
      Inl f \<Rightarrow> False
    | Inr r \<Rightarrow> generation (state (binder_of (after r))) = 3) \<and>
   on_error quiet (Some 4) failed = Returned failed \<and>
   on_completed quiet failed = Returned failed"
    by (simp add: failed_eq add_def notify_def multicast_observer_def binder_ctor_def
      state_ctor_def alice_gone_def is_subscribed_def alice_def on_error_def on_completed_def
      quiet_def)
  let ?s0 = "multicast_observer 0 0 all_live :: (nat, nat) subject"
  have c: "current (state (binder_of ?s0)) = Casting" "generation (state (binder_of ?s0)) = 0"
    by (simp_all add: multicast_observer_def binder_ctor_def state_ctor_def)
  have l: "is_subscribed alice (env ?s0)"
    by (simp add: multicast_observer_def all_live_def is_subscribed_def)
  from run_replicate_add [OF c(1) l, of quiet 2147483647] obtain s1
    where s1: "run quiet (replicate 2147483647 (Add alice)) ?s0 = Inr s1"
      "generation (state (binder_of s1)) = generation (state (binder_of ?s0)) + of_nat 2147483647"
      "current (state (binder_of s1)) = Casting" "env s1 = env ?s0"
    by blast
  from l s1(4) have "is_subscribed alice (env s1)" by simp
  from add_casting_generation [OF s1(3) this, of quiet "()"] obtain s2
    where s2: "add quiet () alice s1 = Inr (Returned s2)"
      "generation (state (binder_of s2)) = generation (state (binder_of s1)) + 1"
    by blast
  have g1: "sint (generation (state (binder_of s1))) = 2147483647"
    by (simp add: s1(2) c(2))
  have g2: "sint (generation (state (binder_of s2))) = - 2147483648"
    by (simp add: s2(2) s1(2) c(2))
  from s1(1) s2(1) g1 g2 have "\<exists>s1 s2. run quiet (replicate 2147483647 (Add alice)) ?s0 = Inr s1 \<and>
      add quiet () alice s1 = Inr (Returned s2) \<and>
      sint (generation (state (binder_of s1))) = 2147483647 \<and>
      sint (generation (state (binder_of s2))) = - 2147483648" by blast
  with small show ?thesis by blast
qed

text \<open>
  C7, as the code has it. Every call advances the generation by exactly one, in the
  wrapping arithmetic of the 32-bit counter, when it is counted, that is in Casting mode
  an \<^verbatim>\<open>add\<close> of a subscribed observer, an \<^verbatim>\<open>on_error\<close> or an \<^verbatim>\<open>on_completed\<close>, and leaves it
  unchanged otherwise. A counted call made below \<^verbatim>\<open>INT_MAX\<close> therefore increases the
  counter strictly, and along any execution in which every call is made below
  \<^verbatim>\<open>INT_MAX\<close> the counter never decreases from one point of the execution to a later one.
\<close>

theorem generation_advances:
  fixes sys :: "('v, 'e) subject"
  defines "g \<equiv> \<lambda>s :: ('v, 'e) subject. generation (state (binder_of s))"
  defines "counted \<equiv> \<lambda>c s. current (state (binder_of s)) = Casting \<and>
                 (case c of Add ob \<Rightarrow> is_subscribed ob (env s) | Next v \<Rightarrow> False
                  | Error x \<Rightarrow> True | Complete \<Rightarrow> True | Dispose x \<Rightarrow> False)"
  shows "(\<forall>r. step h c sys = Inr r \<longrightarrow>
            g (after r) = g sys + (if counted c sys then 1 else 0)) \<and>
         (\<forall>r. step h c sys = Inr r \<and> sint (g sys) < 2147483647 \<longrightarrow>
            sint (g (after r)) = sint (g sys) + (if counted c sys then 1 else 0)) \<and>
         (\<forall>s1 s2. run h xs sys = Inr s1 \<and> run h ys s1 = Inr s2 \<and>
            (\<forall>k<length (xs @ ys). \<forall>s. run h (take k (xs @ ys)) sys = Inr s \<longrightarrow>
               sint (g s) < 2147483647) \<longrightarrow>
            sint (g sys) \<le> sint (g s1) \<and> sint (g s1) \<le> sint (g s2))"
proof -
  have p1: "\<forall>r. step h c sys = Inr r \<longrightarrow>
            g (after r) = g sys + (if counted c sys then 1 else 0)"
    unfolding g_def counted_def by (intro allI impI) (rule step_generation)
  have p2: "\<forall>r. step h c sys = Inr r \<and> sint (g sys) < 2147483647 \<longrightarrow>
            sint (g (after r)) = sint (g sys) + (if counted c sys then 1 else 0)"
  proof (intro allI impI, elim conjE)
    fix r assume r: "step h c sys = Inr r" and b: "sint (g sys) < 2147483647"
    from p1 r have "g (after r) = g sys + (if counted c sys then 1 else 0)" by blast
    with sint_succ [of "g sys"] b
    show "sint (g (after r)) = sint (g sys) + (if counted c sys then 1 else 0)" by simp
  qed
  have p3: "\<forall>s1 s2. run h xs sys = Inr s1 \<and> run h ys s1 = Inr s2 \<and>
            (\<forall>k<length (xs @ ys). \<forall>s. run h (take k (xs @ ys)) sys = Inr s \<longrightarrow>
               sint (g s) < 2147483647) \<longrightarrow>
            sint (g sys) \<le> sint (g s1) \<and> sint (g s1) \<le> sint (g s2)"
  proof (intro allI impI, elim conjE)
    fix s1 s2
    assume x: "run h xs sys = Inr s1" and y: "run h ys s1 = Inr s2"
      and below: "\<forall>k<length (xs @ ys). \<forall>s. run h (take k (xs @ ys)) sys = Inr s \<longrightarrow>
               sint (g s) < 2147483647"
    have bx: "\<forall>k<length xs. \<forall>s. run h (take k xs) sys = Inr s \<longrightarrow>
                sint (generation (state (binder_of s))) < 2147483647"
    proof (intro allI impI)
      fix k s assume k: "k < length xs" and s: "run h (take k xs) sys = Inr s"
      from k have "take k (xs @ ys) = take k xs" by simp
      with below [rule_format, of k s] k s show "sint (generation (state (binder_of s))) < 2147483647"
        by (simp add: g_def)
    qed
    have by': "\<forall>k<length ys. \<forall>s. run h (take k ys) s1 = Inr s \<longrightarrow>
                sint (generation (state (binder_of s))) < 2147483647"
    proof (intro allI impI)
      fix k s assume k: "k < length ys" and s: "run h (take k ys) s1 = Inr s"
      have "run h (take (length xs + k) (xs @ ys)) sys = Inr s"
        using x s by (simp add: run_append)
      with below [rule_format, of "length xs + k" s] k
      show "sint (generation (state (binder_of s))) < 2147483647"
        by (simp add: g_def)
    qed
    from run_generation [OF x bx] run_generation [OF y by']
    show "sint (g sys) \<le> sint (g s1) \<and> sint (g s1) \<le> sint (g s2)"
      by (simp add: g_def)
  qed
  show ?thesis by (rule conjI p1 p2 p3)+
qed

theorem generation_advances_witness:
  "(\<exists>r. step quiet (Add carol) busy = Inr r \<and> generation (state (binder_of (after r))) = 3) \<and>
   (\<exists>r. step alice_throws (Error (Some 1)) both = Inr r \<and>
        sint (generation (state (binder_of (after r)))) = 3) \<and>
   (\<exists>s1 s2. run quiet [Add alice, Add bob] (multicast_observer 0 0 all_live) = Inr s1 \<and>
      run quiet [Dispose 1] s1 = Inr s2 \<and>
      sint (generation (state (binder_of (multicast_observer 0 0 all_live :: (nat, nat) subject))))
        \<le> sint (generation (state (binder_of s1))) \<and>
      sint (generation (state (binder_of s1))) \<le> sint (generation (state (binder_of s2))))"
proof -
  note A = generation_advances [where h = quiet and c = "Add carol" and sys = busy
      and xs = "[]" and ys = "[]"]
  obtain r1 where r1: "step quiet (Add carol) busy = Inr r1"
    by (simp add: busy_def add_def is_subscribed_def carol_def make_shared_def)
  have cnt: "current (state (binder_of busy)) = Casting" "is_subscribed carol (env busy)"
    "generation (state (binder_of busy)) = 2"
    by (simp_all add: busy_def is_subscribed_def carol_def)
  from A [THEN conjunct1, rule_format, OF r1] cnt
  have w1: "generation (state (binder_of (after r1))) = 3" by simp
  note B = generation_advances [where h = alice_throws and c = "Error (Some 1)" and sys = both
      and xs = "[]" and ys = "[]"]
  obtain r2 where r2: "step alice_throws (Error (Some 1)) both = Inr r2" by simp
  have cnt2: "current (state (binder_of both)) = Casting"
    "generation (state (binder_of both)) = 2"
    by (simp_all add: both_def)
  have "step alice_throws (Error (Some 1)) both = Inr r2 \<and>
        sint (generation (state (binder_of both))) < 2147483647"
    using r2 cnt2 by simp
  from B [THEN conjunct2, THEN conjunct1, rule_format, OF this] cnt2
  have w2: "sint (generation (state (binder_of (after r2)))) = 3" by simp
  let ?s0 = "multicast_observer 0 0 all_live :: (nat, nat) subject"
  note D = generation_advances [where h = quiet and c = Complete and sys = ?s0
      and xs = "[Add alice, Add bob]" and ys = "[Dispose 1]"]
  have x: "run quiet [Add alice, Add bob] ?s0 = Inr both" by (rule both_reached)
  have y: "run quiet [Dispose 1] both = Inr busy"
    by (simp add: both_def busy_def all_live_def)
  have below: "\<forall>k<length ([Add alice, Add bob] @ [Dispose 1 :: (nat, nat) call]).
      \<forall>s. run quiet (take k ([Add alice, Add bob] @ [Dispose 1])) ?s0 = Inr s \<longrightarrow>
        sint (generation (state (binder_of s))) < 2147483647"
  proof (intro allI impI)
    fix k s
    assume k: "k < length ([Add alice, Add bob] @ [Dispose 1 :: (nat, nat) call])"
      and s: "run quiet (take k ([Add alice, Add bob] @ [Dispose 1])) ?s0 = Inr s"
    from k have "k = 0 \<or> k = 1 \<or> k = 2" by auto
    with s show "sint (generation (state (binder_of s))) < 2147483647"
      by (auto simp: add_def multicast_observer_def binder_ctor_def state_ctor_def
          all_live_def is_subscribed_def alice_def bob_def make_shared_def)
  qed
  from D [THEN conjunct2, THEN conjunct2, rule_format, of both busy] x y below
  have w3: "sint (generation (state (binder_of ?s0))) \<le> sint (generation (state (binder_of both))) \<and>
            sint (generation (state (binder_of both))) \<le> sint (generation (state (binder_of busy)))"
    by blast
  from r1 w1 r2 w2 x y w3 show ?thesis by blast
qed

text \<open>
  C8. In Casting mode, \<^verbatim>\<open>add\<close> of an observer whose \<^verbatim>\<open>is_subscribed()\<close> is false is
  ignored: the call returns and the whole subject (both snapshot pointers, the heap of
  snapshots, Mode, stored error, generation, lifetime) and the world (no notification,
  no subscription touched) are as before.
\<close>

theorem add_unsubscribed_ignored:
  assumes "current (state (binder_of sys)) = Casting"
    and "\<not> is_subscribed ob (env sys)"
  shows "add h sf ob sys = Inr (Returned sys)"
  using assms by (simp add: add_def)

theorem add_unsubscribed_ignored_witness:
  "current (state (binder_of (multicast_observer 0 0 alice_gone))) = Casting \<and>
   \<not> is_subscribed alice alice_gone \<and>
   add quiet () alice (multicast_observer 0 0 alice_gone) =
     Inr (Returned (multicast_observer 0 0 alice_gone))"
proof -
  have a: "current (state (binder_of (multicast_observer 0 0 alice_gone))) = Casting"
    by (simp add: multicast_observer_def binder_ctor_def state_ctor_def)
  have b: "\<not> is_subscribed alice (env (multicast_observer 0 0 alice_gone))"
    by (simp add: multicast_observer_def is_subscribed_def alice_gone_def alice_def)
  from add_unsubscribed_ignored [OF a b, of quiet "()"] a b show ?thesis
    by (simp add: multicast_observer_def)
qed

text \<open>
  C10. \<^verbatim>\<open>abort()\<close> is unreachable: every sequence of calls on a subject made by the
  constructor runs to its end, whether the callbacks return or throw, and Mode is then
  Casting, Completed or Errored.
\<close>

theorem abort_unreachable:
  "\<exists>sys. run h cs (multicast_observer lt i w) = Inr sys \<and>
         current (state (binder_of sys)) \<in> {Casting, Completed, Errored}"
proof -
  have "current (state (binder_of (multicast_observer lt i w))) \<noteq> Invalid"
    by (simp add: multicast_observer_def binder_ctor_def state_ctor_def)
  from run_mode_valid [OF this, of h cs] obtain sys
    where "run h cs (multicast_observer lt i w) = Inr sys" "current (state (binder_of sys)) \<noteq> Invalid"
    by blast
  then show ?thesis by (cases "current (state (binder_of sys))") auto
qed

theorem abort_unreachable_witness:
  "\<exists>sys. run alice_throws [Add alice, Next 1, Error (Some 2), Add bob, Complete, Dispose 2, Next 3]
            (multicast_observer 0 0 all_live) = Inr sys \<and>
         current (state (binder_of sys)) = Errored"
proof -
  from abort_unreachable [where h = alice_throws and lt = 0 and i = 0 and w = all_live
      and cs = "[Add alice, Next 1, Error (Some 2), Add bob, Complete, Dispose 2, Next 3]"]
  obtain sys where r: "run alice_throws [Add alice, Next 1, Error (Some 2), Add bob, Complete, Dispose 2, Next 3]
            (multicast_observer 0 0 all_live) = Inr sys" by blast
  then have "current (state (binder_of sys)) = Errored"
    by (auto simp: add_def notify_def multicast_observer_def binder_ctor_def state_ctor_def
      all_live_def is_subscribed_def alice_def bob_def make_shared_def completer_ctor_def
      deref_def on_next_def on_error_def on_error_locked_def on_completed_def Let_def
      alice_throws_def quiet_def deliver_def left_def
      split: if_splits)
  with r show ?thesis by blast
qed

end
